theory Spec2Isabelle
  imports Main "HOL-Library.Word" "HOL-Library.Sublist"
begin

section \<open>The attributed-body decoder of imsg-read.py\<close>

text \<open>
  The function \<^verbatim>\<open>decode_attributed_body\<close> of \<^verbatim>\<open>src/imsg-read.py\<close> takes the bytes of an
  NSAttributedString archive and recovers the message text by two heuristics. The
  embedding follows the Python line by line. A \<^verbatim>\<open>bytes\<close> value is a list of 8-bit
  words, a \<^verbatim>\<open>str\<close> is the list of its code points, and an operation of Python that can
  raise returns a sum whose left side is the exception.
\<close>

subsection \<open>Data\<close>

type_synonym byte = "8 word"

type_synonym ustr = "nat list"

datatype py_error = IndexError | ValueError

text \<open>An ASCII literal of the source as a \<^verbatim>\<open>str\<close>.\<close>

definition cp :: "string \<Rightarrow> ustr" where
  "cp s = map of_char s"

text \<open>
  The character classes \<^verbatim>\<open>str.isprintable\<close>, \<^verbatim>\<open>str.islower\<close> and \<^verbatim>\<open>str.isupper\<close> are read
  by Python from the Unicode character database, a table that is not part of the
  repository. On ASCII the three classes are fixed and written out below; above ASCII
  the table is a parameter of the model.
\<close>

record ucd =
  printable_tab :: "nat \<Rightarrow> bool"
  lower_tab :: "nat \<Rightarrow> bool"
  upper_tab :: "nat \<Rightarrow> bool"

definition isprintable :: "ucd \<Rightarrow> nat \<Rightarrow> bool" where
  "isprintable U c = (if c < 128 then 32 \<le> c \<and> c \<le> 126 else printable_tab U c)"

definition islower :: "ucd \<Rightarrow> nat \<Rightarrow> bool" where
  "islower U c = (if c < 128 then 97 \<le> c \<and> c \<le> 122 else lower_tab U c)"

definition isupper :: "ucd \<Rightarrow> nat \<Rightarrow> bool" where
  "isupper U c = (if c < 128 then 65 \<le> c \<and> c \<le> 90 else upper_tab U c)"

text \<open>A table without any character above ASCII, for running the model on ASCII text.\<close>

definition ascii_ucd :: ucd where
  "ascii_ucd = \<lparr>printable_tab = (\<lambda>c. False), lower_tab = (\<lambda>c. False), upper_tab = (\<lambda>c. False)\<rparr>"

text \<open>
  Whitespace as \<^verbatim>\<open>str.split()\<close>, \<^verbatim>\<open>str.strip()\<close> and the class \<^verbatim>\<open>\s\<close> of \<^verbatim>\<open>re\<close> see it on
  a \<^verbatim>\<open>str\<close>: the fixed list of CPython's \<^verbatim>\<open>Py_UNICODE_ISSPACE\<close>.
\<close>

definition isspace :: "nat \<Rightarrow> bool" where
  "isspace c = ((9 \<le> c \<and> c \<le> 13) \<or> (28 \<le> c \<and> c \<le> 32) \<or> c = 133 \<or> c = 160
     \<or> c = 5760 \<or> (8192 \<le> c \<and> c \<le> 8202) \<or> c = 8232 \<or> c = 8233 \<or> c = 8239
     \<or> c = 8287 \<or> c = 12288)"

subsection \<open>bytes.decode('utf-8', errors='ignore')\<close>

text \<open>
  One step of CPython's UTF-8 decoder at the head of the remaining bytes: either a code
  point and the number of bytes it took, or the number of bytes the \<^verbatim>\<open>ignore\<close> handler
  drops (one for an invalid start byte, the bytes before the offending one for an
  invalid continuation byte, everything that is left for a sequence cut off by the end
  of the data). Overlong forms, surrogates and code points above 0x10FFFF are invalid.
\<close>

datatype utf8_step = Decoded nat nat | Dropped nat | Finished

definition is_cont :: "byte \<Rightarrow> bool" where
  "is_cont b = (128 \<le> unat b \<and> unat b < 192)"

definition utf8_seq2 :: "nat \<Rightarrow> byte list \<Rightarrow> utf8_step" where
  "utf8_seq2 ch rest =
     (case rest of
        [] \<Rightarrow> Dropped 1
      | b1 # _ \<Rightarrow>
          if is_cont b1 then Decoded ((ch - 192) * 64 + (unat b1 - 128)) 2
          else Dropped 1)"

definition utf8_seq3 :: "nat \<Rightarrow> byte list \<Rightarrow> utf8_step" where
  "utf8_seq3 ch rest =
     (case rest of
        [] \<Rightarrow> Dropped 1
      | [b1] \<Rightarrow>
          if \<not> is_cont b1 \<or> (if unat b1 < 160 then ch = 224 else ch = 237)
          then Dropped 1 else Dropped 2
      | b1 # b2 # _ \<Rightarrow>
          if \<not> is_cont b1 then Dropped 1
          else if ch = 224 \<and> unat b1 < 160 then Dropped 1
          else if ch = 237 \<and> 160 \<le> unat b1 then Dropped 1
          else if \<not> is_cont b2 then Dropped 2
          else Decoded ((ch - 224) * 4096 + (unat b1 - 128) * 64 + (unat b2 - 128)) 3)"

definition utf8_seq4 :: "nat \<Rightarrow> byte list \<Rightarrow> utf8_step" where
  "utf8_seq4 ch rest =
     (case rest of
        [] \<Rightarrow> Dropped 1
      | [b1] \<Rightarrow>
          if \<not> is_cont b1 \<or> (if unat b1 < 144 then ch = 240 else ch = 244)
          then Dropped 1 else Dropped 2
      | [b1, b2] \<Rightarrow>
          if \<not> is_cont b1 \<or> (if unat b1 < 144 then ch = 240 else ch = 244)
          then Dropped 1
          else if \<not> is_cont b2 then Dropped 2 else Dropped 3
      | b1 # b2 # b3 # _ \<Rightarrow>
          if \<not> is_cont b1 then Dropped 1
          else if ch = 240 \<and> unat b1 < 144 then Dropped 1
          else if ch = 244 \<and> 144 \<le> unat b1 then Dropped 1
          else if \<not> is_cont b2 then Dropped 2
          else if \<not> is_cont b3 then Dropped 3
          else Decoded ((ch - 240) * 262144 + (unat b1 - 128) * 4096
                         + (unat b2 - 128) * 64 + (unat b3 - 128)) 4)"

definition utf8_next :: "byte list \<Rightarrow> utf8_step" where
  "utf8_next bs =
     (case bs of
        [] \<Rightarrow> Finished
      | b0 # rest \<Rightarrow>
          if unat b0 < 128 then Decoded (unat b0) 1
          else if unat b0 < 194 then Dropped 1
          else if unat b0 < 224 then utf8_seq2 (unat b0) rest
          else if unat b0 < 240 then utf8_seq3 (unat b0) rest
          else if unat b0 < 245 then utf8_seq4 (unat b0) rest
          else Dropped 1)"

text \<open>A step that is not \<open>Finished\<close> moves forward by at least one byte.\<close>

definition advances :: "utf8_step \<Rightarrow> bool" where
  "advances s = (case s of Decoded c n \<Rightarrow> 0 < n | Dropped n \<Rightarrow> 0 < n | Finished \<Rightarrow> False)"

lemma utf8_next_Nil: "utf8_next [] = Finished"
  by (simp add: utf8_next_def)

lemma utf8_next_advances: "bs \<noteq> [] \<Longrightarrow> advances (utf8_next bs)"
  by (cases bs)
     (simp_all add: utf8_next_def utf8_seq2_def utf8_seq3_def utf8_seq4_def advances_def
        split: list.split)

lemma utf8_next_Decoded: "utf8_next bs = Decoded c n \<Longrightarrow> length (drop n bs) < length bs"
proof -
  assume a: "utf8_next bs = Decoded c n"
  then have "bs \<noteq> []" using utf8_next_Nil by auto
  with a utf8_next_advances [of bs] show ?thesis by (simp add: advances_def)
qed

lemma utf8_next_Dropped: "utf8_next bs = Dropped n \<Longrightarrow> length (drop n bs) < length bs"
proof -
  assume a: "utf8_next bs = Dropped n"
  then have "bs \<noteq> []" using utf8_next_Nil by auto
  with a utf8_next_advances [of bs] show ?thesis by (simp add: advances_def)
qed

text \<open>
  The decoder with the \<^verbatim>\<open>ignore\<close> handler, as line 18 calls it: a step that decodes
  gives a character, a step that drops gives nothing.
\<close>

function utf8_decode_ignore :: "byte list \<Rightarrow> ustr" where
  "utf8_decode_ignore bs =
     (case utf8_next bs of
        Finished \<Rightarrow> []
      | Decoded c n \<Rightarrow> c # utf8_decode_ignore (drop n bs)
      | Dropped n \<Rightarrow> utf8_decode_ignore (drop n bs))"
  by pat_completeness auto
termination
proof (relation "measure length")
  show "wf (measure length)" by simp
next
  fix bs :: "byte list" and c n
  assume "utf8_next bs = Decoded c n"
  then show "(drop n bs, bs) \<in> measure length"
    using utf8_next_Decoded [of bs c n] by simp
next
  fix bs :: "byte list" and n
  assume "utf8_next bs = Dropped n"
  then show "(drop n bs, bs) \<in> measure length"
    using utf8_next_Dropped [of bs n] by simp
qed

text \<open>
  Two companions of the decoder, to say what the handler does to a blob. The strict
  decoder (Python's default handler) fails at the first invalid byte; \<open>kept_bytes\<close> are the
  bytes of the blob that the steps of the decoder do not drop.
\<close>

function utf8_decode_strict :: "byte list \<Rightarrow> ustr option" where
  "utf8_decode_strict bs =
     (case utf8_next bs of
        Finished \<Rightarrow> Some []
      | Decoded c n \<Rightarrow> map_option ((#) c) (utf8_decode_strict (drop n bs))
      | Dropped n \<Rightarrow> None)"
  by pat_completeness auto
termination
proof (relation "measure length")
  show "wf (measure length)" by simp
next
  fix bs :: "byte list" and c n
  assume "utf8_next bs = Decoded c n"
  then show "(drop n bs, bs) \<in> measure length"
    using utf8_next_Decoded [of bs c n] by simp
qed

function kept_bytes :: "byte list \<Rightarrow> byte list" where
  "kept_bytes bs =
     (case utf8_next bs of
        Finished \<Rightarrow> []
      | Decoded c n \<Rightarrow> take n bs @ kept_bytes (drop n bs)
      | Dropped n \<Rightarrow> kept_bytes (drop n bs))"
  by pat_completeness auto
termination
proof (relation "measure length")
  show "wf (measure length)" by simp
next
  fix bs :: "byte list" and c n
  assume "utf8_next bs = Decoded c n"
  then show "(drop n bs, bs) \<in> measure length"
    using utf8_next_Decoded [of bs c n] by simp
next
  fix bs :: "byte list" and n
  assume "utf8_next bs = Dropped n"
  then show "(drop n bs, bs) \<in> measure length"
    using utf8_next_Dropped [of bs n] by simp
qed

declare utf8_decode_ignore.simps [simp del] utf8_decode_strict.simps [simp del]
  kept_bytes.simps [simp del]

text \<open>The bytes of an ASCII \<^verbatim>\<open>str\<close>, for writing blobs down.\<close>

definition ascii_bytes :: "ustr \<Rightarrow> byte list" where
  "ascii_bytes s = map of_nat s"

subsection \<open>Operations of str\<close>

text \<open>
  \<^verbatim>\<open>sub in s\<close> is \<^const>\<open>sublist\<close>. \<^verbatim>\<open>s.find(sub)\<close> is the lowest index at which \<^verbatim>\<open>sub\<close>
  starts, and \<open>-1\<close> when there is none.
\<close>

primrec find_idx :: "'a list \<Rightarrow> 'a list \<Rightarrow> nat option" where
  "find_idx [] sub = (if sub = [] then Some 0 else None)"
| "find_idx (x # xs) sub =
     (if prefix sub (x # xs) then Some 0 else map_option Suc (find_idx xs sub))"

definition str_find :: "'a list \<Rightarrow> 'a list \<Rightarrow> int" where
  "str_find s sub = (case find_idx s sub of None \<Rightarrow> - 1 | Some i \<Rightarrow> int i)"

text \<open>
  A slice \<^verbatim>\<open>s[i:j]\<close>: a negative bound counts from the end, and both bounds are clamped
  to the string.
\<close>

definition slice_bound :: "nat \<Rightarrow> int \<Rightarrow> nat" where
  "slice_bound n i = (if i < 0 then nat (max 0 (int n + i)) else min n (nat i))"

definition str_slice :: "'a list \<Rightarrow> int \<Rightarrow> int \<Rightarrow> 'a list" where
  "str_slice s i j =
     (let a = slice_bound (length s) i; b = slice_bound (length s) j
      in take (b - a) (drop a s))"

text \<open>An index \<^verbatim>\<open>s[i]\<close> with \<open>i \<ge> 0\<close> raises IndexError out of range.\<close>

definition str_index :: "'a list \<Rightarrow> nat \<Rightarrow> py_error + 'a" where
  "str_index s i = (if i < length s then Inr (s ! i) else Inl IndexError)"

text \<open>\<^verbatim>\<open>s.strip()\<close> removes the whitespace at both ends.\<close>

definition str_strip :: "ustr \<Rightarrow> ustr" where
  "str_strip s = rev (dropWhile isspace (rev (dropWhile isspace s)))"

text \<open>
  \<^verbatim>\<open>s.split()\<close> without a separator: the maximal runs of characters that are not
  whitespace. The second argument collects the current run, reversed.
\<close>

fun split_ws :: "ustr \<Rightarrow> ustr \<Rightarrow> ustr list" where
  "split_ws [] cur = (if cur = [] then [] else [rev cur])"
| "split_ws (x # xs) cur =
     (if isspace x then (if cur = [] then [] else [rev cur]) @ split_ws xs []
      else split_ws xs (x # cur))"

text \<open>\<^verbatim>\<open>sep.join(xs)\<close>.\<close>

fun str_join :: "ustr \<Rightarrow> ustr list \<Rightarrow> ustr" where
  "str_join sep [] = []"
| "str_join sep [x] = x"
| "str_join sep (x # y # ys) = x @ sep @ str_join sep (y # ys)"

text \<open>
  \<^verbatim>\<open>s.split(sep)\<close> cuts at the occurrences of \<^verbatim>\<open>sep\<close> found from left to right, none
  overlapping another; an empty separator raises ValueError.
\<close>

fun split_sep :: "ustr \<Rightarrow> ustr \<Rightarrow> ustr \<Rightarrow> ustr list" where
  "split_sep sep [] cur = [rev cur]"
| "split_sep sep (x # xs) cur =
     (if prefix sep (x # xs) then rev cur # split_sep sep (drop (length sep - 1) xs) []
      else split_sep sep xs (x # cur))"

definition str_split :: "ustr \<Rightarrow> ustr \<Rightarrow> py_error + ustr list" where
  "str_split s sep = (if sep = [] then Inl ValueError else Inr (split_sep sep s []))"

text \<open>
  \<^verbatim>\<open>s.replace(old, new)\<close> for a non-empty \<^verbatim>\<open>old\<close>, as at every call of the source:
  the occurrences found from left to right, none overlapping another.
\<close>

fun str_replace :: "ustr \<Rightarrow> ustr \<Rightarrow> ustr \<Rightarrow> ustr" where
  "str_replace [] old new = []"
| "str_replace (x # xs) old new =
     (if old \<noteq> [] \<and> prefix old (x # xs)
      then new @ str_replace (drop (length old - 1) xs) old new
      else x # str_replace xs old new)"

subsection \<open>re.findall(r'https?://[^\s\x00]+', text)\<close>

definition url_char :: "nat \<Rightarrow> bool" where
  "url_char c = (\<not> isspace c \<and> c \<noteq> 0)"

text \<open>
  The pattern matched at the head of \<open>s\<close>. The two schemes differ at their fifth
  character, so at most one of them starts there; the greedy class takes the longest run.
\<close>

definition url_match :: "ustr \<Rightarrow> ustr option" where
  "url_match s =
     (if prefix (cp ''https://'') s then
        (let run = takeWhile url_char (drop 8 s)
         in if run = [] then None else Some (cp ''https://'' @ run))
      else if prefix (cp ''http://'') s then
        (let run = takeWhile url_char (drop 7 s)
         in if run = [] then None else Some (cp ''http://'' @ run))
      else None)"

text \<open>All matches from left to right; after a match the scan goes on behind it.\<close>

fun re_findall_url :: "ustr \<Rightarrow> ustr list" where
  "re_findall_url [] = []"
| "re_findall_url (x # xs) =
     (case url_match (x # xs) of
        None \<Rightarrow> re_findall_url xs
      | Some m \<Rightarrow> m # re_findall_url (drop (length m - 1) xs))"

subsection \<open>Method 1: the + length prefix (lines 21 to 47)\<close>

text \<open>Lines 26 to 33: the run after the separator loses its length prefix.\<close>

definition skip_prefix :: "ustr \<Rightarrow> py_error + ustr" where
  "skip_prefix raw =
     (if raw \<noteq> [] then
        (case str_index raw 0 of
           Inl e \<Rightarrow> Inl e
         | Inr c0 \<Rightarrow>
             if c0 = 129 then Inr (if length raw > 3 then drop 3 raw else [])
             else if c0 < 128 then Inr (drop 1 raw)
             else Inr raw)
      else Inr raw)"

text \<open>Lines 36 to 39: the chunk is cut at each marker in turn.\<close>

definition cutoffs :: "ustr list" where
  "cutoffs = [cp ''__kIM'', cp ''NSNumber'', cp ''NSValue'', cp ''NSDictionary'', [2], [134]]"

definition cut_at :: "ustr \<Rightarrow> ustr \<Rightarrow> ustr" where
  "cut_at chunk cutoff =
     (if sublist cutoff chunk then str_slice chunk 0 (str_find chunk cutoff) else chunk)"

definition cut_markers :: "ustr list \<Rightarrow> ustr \<Rightarrow> ustr" where
  "cut_markers cs chunk = foldl cut_at chunk cs"

text \<open>Lines 42 and 43: a lowercase letter before an uppercase one is dropped.\<close>

definition strip_artifact :: "ucd \<Rightarrow> ustr \<Rightarrow> py_error + ustr" where
  "strip_artifact U chunk =
     (if length chunk > 2 then
        (case str_index chunk 0 of
           Inl e \<Rightarrow> Inl e
         | Inr c0 \<Rightarrow>
             if islower U c0 then
               (case str_index chunk 1 of
                  Inl e \<Rightarrow> Inl e
                | Inr c1 \<Rightarrow> if isupper U c1 then Inr (drop 1 chunk) else Inr chunk)
             else Inr chunk)
      else Inr chunk)"

text \<open>
  The chunk of method 1 before the test of line 46, and the method itself: \<open>Some\<close> is
  the \<^verbatim>\<open>return\<close> of line 47, \<open>None\<close> falls through to method 2.
\<close>

definition method1_chunk :: "ucd \<Rightarrow> ustr \<Rightarrow> py_error + ustr" where
  "method1_chunk U text =
     (let idx = str_find text (cp ''+'');
          raw = str_slice text (idx + 1) (idx + 1000)
      in case skip_prefix raw of
           Inl e \<Rightarrow> Inl e
         | Inr chunk \<Rightarrow>
             (case strip_artifact U (cut_markers cutoffs chunk) of
                Inl e \<Rightarrow> Inl e
              | Inr chunk' \<Rightarrow> Inr (str_strip chunk')))"

definition method1 :: "ucd \<Rightarrow> ustr \<Rightarrow> py_error + ustr option" where
  "method1 U text =
     (if sublist (cp ''+'') text then
        (case method1_chunk U text of
           Inl e \<Rightarrow> Inl e
         | Inr chunk \<Rightarrow> if length chunk > 3 then Inr (Some chunk) else Inr None)
      else Inr None)"

subsection \<open>Method 2: the streamtyped format (lines 50 to 69)\<close>

definition markers :: "ustr list" where
  "markers = [cp ''NSMutableString'', cp ''NSDictionary'', cp ''NSNumber'', cp ''NSValue'',
     cp ''NSObject'', cp ''NSData'', cp ''i'', cp ''I'']"

text \<open>Lines 58 to 62: what is left of one part after the cleaning.\<close>

definition clean_part :: "ucd \<Rightarrow> ustr \<Rightarrow> ustr" where
  "clean_part U part =
     (let readable = filter (isprintable U) part;
          readable = foldl (\<lambda>r marker. str_replace r marker (cp '' '')) readable markers
      in str_strip (str_join (cp '' '') (split_ws readable [])))"

definition qualifies :: "ustr \<Rightarrow> bool" where
  "qualifies readable = (length readable > 10 \<and> \<not> prefix (cp ''+'') readable)"

text \<open>The loop of lines 56 to 64: \<open>Some\<close> is the \<^verbatim>\<open>return\<close> of line 64.\<close>

fun scan_parts :: "ucd \<Rightarrow> ustr list \<Rightarrow> ustr option" where
  "scan_parts U [] = None"
| "scan_parts U (part # parts) =
     (let readable = clean_part U part
      in if qualifies readable then Some (take 500 readable) else scan_parts U parts)"

definition method2 :: "ucd \<Rightarrow> ustr \<Rightarrow> py_error + ustr option" where
  "method2 U text =
     (if sublist (cp ''streamtyped'') text then
        (case str_split text (cp ''NSString'') of
           Inl e \<Rightarrow> Inl e
         | Inr parts \<Rightarrow>
             (case scan_parts U (drop 1 parts) of
                Some r \<Rightarrow> Inr (Some r)
              | None \<Rightarrow>
                  (let urls = re_findall_url text
                   in if urls \<noteq> [] then
                        (case str_index urls 0 of Inl e \<Rightarrow> Inl e | Inr u \<Rightarrow> Inr (Some u))
                      else Inr None)))
      else Inr None)"

subsection \<open>decode_attributed_body\<close>

text \<open>
  The body of the \<^verbatim>\<open>try\<close> (lines 18 to 71) with its exceptions, then the function:
  the test of line 15 on a blob that may be \<^verbatim>\<open>None\<close>, and the bare \<^verbatim>\<open>except\<close> of
  line 72 that turns every exception into the empty string.
\<close>

definition decode_body :: "ucd \<Rightarrow> byte list \<Rightarrow> py_error + ustr" where
  "decode_body U blob =
     (let text = utf8_decode_ignore blob
      in case method1 U text of
           Inl e \<Rightarrow> Inl e
         | Inr (Some chunk) \<Rightarrow> Inr chunk
         | Inr None \<Rightarrow>
             (case method2 U text of
                Inl e \<Rightarrow> Inl e
              | Inr (Some r) \<Rightarrow> Inr r
              | Inr None \<Rightarrow> Inr []))"

definition decode_attributed_body :: "ucd \<Rightarrow> byte list option \<Rightarrow> ustr" where
  "decode_attributed_body U blob =
     (case blob of
        None \<Rightarrow> []
      | Some b \<Rightarrow>
          if b = [] then []
          else (case decode_body U b of Inl e \<Rightarrow> [] | Inr s \<Rightarrow> s))"

subsection \<open>Example blobs\<close>

text \<open>
  ASCII text views used to run the model: a chunk of method 1 that is too short, a
  legacy segment of 501 letters, the legacy and the URL example of the specification,
  and a text view with a URL on which method 1 succeeds.
\<close>

definition short_chunk_text :: ustr where
  "short_chunk_text = cp ''+aHi'' @ [2] @ cp ''streamtyped http://a.b''"

definition long_text :: ustr where
  "long_text = cp ''streamtypedNSString'' @ replicate 501 97"

definition legacy_text :: ustr where
  "legacy_text = cp ''streamtypedNSStringabNSStringZZZSome message text hereNSDictionary''"

definition url_text :: ustr where
  "url_text = cp ''streamtyped  https://example.com/x?y=1 tail''"

definition modern_url_text :: ustr where
  "modern_url_text = cp ''http://a.b streamtyped+xHello''"

section \<open>Properties\<close>

subsection \<open>Searching and cutting\<close>

lemma find_idx_sublist: "find_idx s sub \<noteq> None \<longleftrightarrow> sublist sub s"
  by (induction s) (auto simp: sublist_Cons_right)

lemma find_idx_first:
  "find_idx s sub = Some i \<Longrightarrow> prefix sub (drop i s) \<and> (\<forall>j<i. \<not> prefix sub (drop j s))"
proof (induction s arbitrary: i)
  case Nil
  then show ?case by (simp split: if_splits)
next
  case (Cons x xs)
  show ?case
  proof (cases "prefix sub (x # xs)")
    case True
    with Cons.prems show ?thesis by simp
  next
    case False
    with Cons.prems obtain k where k: "find_idx xs sub = Some k" "i = Suc k" by auto
    from Cons.IH[OF k(1)] False k(2) show ?thesis
      by (auto simp: less_Suc_eq_0_disj)
  qed
qed

lemma find_idx_le: "find_idx s sub = Some i \<Longrightarrow> i \<le> length s"
  by (induction s arbitrary: i) (auto split: if_splits)

lemma str_slice_0: "0 \<le> k \<Longrightarrow> str_slice s 0 k = take (nat k) s"
  by (simp add: str_slice_def slice_bound_def Let_def min_def)

lemma cut_at_take:
  "cut_at chunk c = (case find_idx chunk c of None \<Rightarrow> chunk | Some i \<Rightarrow> take i chunk)"
proof (cases "find_idx chunk c")
  case None
  then have "\<not> sublist c chunk" using find_idx_sublist[of chunk c] by simp
  with None show ?thesis by (simp add: cut_at_def)
next
  case (Some i)
  then have "sublist c chunk" using find_idx_sublist[of chunk c] by simp
  with Some show ?thesis by (simp add: cut_at_def str_find_def str_slice_0)
qed

lemma cut_at_prefix: "prefix (cut_at chunk c) chunk"
  by (simp add: cut_at_take take_is_prefix split: option.split)

lemma cut_markers_snoc: "cut_markers (cs @ [c]) p = cut_at (cut_markers cs p) c"
  by (simp add: cut_markers_def)

lemma cut_markers_prefix: "prefix (cut_markers cs p) p"
proof (induction cs rule: rev_induct)
  case Nil
  show ?case by (simp add: cut_markers_def)
next
  case (snoc c cs)
  have "prefix (cut_markers (cs @ [c]) p) (cut_markers cs p)"
    by (simp add: cut_markers_snoc cut_at_prefix)
  then show ?case using snoc by (rule prefix_order.trans)
qed

lemma skip_prefix_Inr: "\<exists>chunk. skip_prefix raw = Inr chunk"
  by (cases raw) (simp_all add: skip_prefix_def str_index_def)

lemma strip_artifact_Inr: "\<exists>chunk'. strip_artifact U chunk = Inr chunk'"
  by (simp add: strip_artifact_def str_index_def)

lemma method1_chunk_Inr: "\<exists>c. method1_chunk U text = Inr c"
proof -
  obtain a where a: "skip_prefix (str_slice text (str_find text (cp ''+'') + 1)
      (str_find text (cp ''+'') + 1000)) = Inr a"
    using skip_prefix_Inr by blast
  obtain b where b: "strip_artifact U (cut_markers cutoffs a) = Inr b"
    using strip_artifact_Inr by blast
  show ?thesis by (simp add: method1_chunk_def Let_def a b)
qed

lemma method1_Inr: "\<exists>r. method1 U text = Inr r"
proof -
  obtain c where "method1_chunk U text = Inr c" using method1_chunk_Inr by blast
  then show ?thesis by (simp add: method1_def)
qed

lemma method2_Inr: "\<exists>r. method2 U text = Inr r"
  by (simp add: method2_def str_split_def cp_def str_index_def Let_def split: option.split)

subsection \<open>No exception, and the empty blob\<close>

text \<open>
  C1. For every blob, the body of the \<^verbatim>\<open>try\<close> ends with a string: no index is read out
  of range and no separator is empty, so no step of it raises, whatever the bytes are.
  Every function of the model is total, so the call also returns; the empty string is
  the only sign of a failure.
\<close>

theorem decode_never_raises: "\<exists>s. decode_body U blob = Inr s"
proof -
  obtain r1 where r1: "method1 U (utf8_decode_ignore blob) = Inr r1"
    using method1_Inr by blast
  obtain r2 where r2: "method2 U (utf8_decode_ignore blob) = Inr r2"
    using method2_Inr by blast
  show ?thesis
    by (simp add: decode_body_def Let_def r1 r2 split: option.split)
qed

text \<open>
  C3. A blob that is \<^verbatim>\<open>None\<close> or has no bytes decodes to the empty string, by the test
  of line 15, for every character table: neither method is consulted.
\<close>

theorem decode_absent_or_empty:
  "decode_attributed_body U None = [] \<and> decode_attributed_body U (Some []) = []"
  by (simp add: decode_attributed_body_def)

subsection \<open>The marker truncation of method 1\<close>

text \<open>
  C9. The truncation applies the six markers in the order of the list, each to the chunk
  the markers before it have left. One application leaves a chunk without the marker as
  it is, and cuts a chunk that contains the marker at the marker's first occurrence: the
  result is the \<open>i\<close> leading characters of the chunk, where the marker starts at index
  \<open>i\<close> and at no lower index. Each application yields a prefix of the chunk it is
  given, and the final chunk is a prefix of the payload.
\<close>

theorem marker_truncation:
  "cut_markers cutoffs p =
     cut_at (cut_at (cut_at (cut_at (cut_at (cut_at p (cp ''__kIM'')) (cp ''NSNumber''))
       (cp ''NSValue'')) (cp ''NSDictionary'')) [2]) [134]
   \<and> (\<forall>chunk c. \<not> sublist c chunk \<longrightarrow> cut_at chunk c = chunk)
   \<and> (\<forall>chunk c. sublist c chunk \<longrightarrow>
         (\<exists>i. cut_at chunk c = take i chunk \<and> i \<le> length chunk
            \<and> prefix c (drop i chunk) \<and> (\<forall>j<i. \<not> prefix c (drop j chunk))))
   \<and> (\<forall>cs c. prefix (cut_markers (cs @ [c]) p) (cut_markers cs p))
   \<and> prefix (cut_markers cutoffs p) p"
proof (intro conjI allI impI)
  show "cut_markers cutoffs p =
     cut_at (cut_at (cut_at (cut_at (cut_at (cut_at p (cp ''__kIM'')) (cp ''NSNumber''))
       (cp ''NSValue'')) (cp ''NSDictionary'')) [2]) [134]"
    by (simp add: cut_markers_def cutoffs_def)
next
  fix chunk c :: ustr
  assume "\<not> sublist c chunk"
  then show "cut_at chunk c = chunk" by (simp add: cut_at_def)
next
  fix chunk c :: ustr
  assume "sublist c chunk"
  then have "find_idx chunk c \<noteq> None" using find_idx_sublist [of chunk c] by blast
  then obtain i where i: "find_idx chunk c = Some i" by blast
  then have "cut_at chunk c = take i chunk" by (simp add: cut_at_take)
  moreover from i have "i \<le> length chunk" by (rule find_idx_le)
  moreover from i have "prefix c (drop i chunk) \<and> (\<forall>j<i. \<not> prefix c (drop j chunk))"
    by (rule find_idx_first)
  ultimately show "\<exists>i. cut_at chunk c = take i chunk \<and> i \<le> length chunk
            \<and> prefix c (drop i chunk) \<and> (\<forall>j<i. \<not> prefix c (drop j chunk))"
    by blast
next
  fix cs c
  show "prefix (cut_markers (cs @ [c]) p) (cut_markers cs p)"
    by (simp add: cut_markers_snoc cut_at_prefix)
next
  show "prefix (cut_markers cutoffs p) p" by (rule cut_markers_prefix)
qed

theorem marker_truncation_witness:
  "sublist (cp ''__kIM'') (cp ''Hi__kIMx__kIM'')
   \<and> prefix (cp ''__kIM'') (drop 2 (cp ''Hi__kIMx__kIM''))
   \<and> list_all (\<lambda>j. \<not> prefix (cp ''__kIM'') (drop j (cp ''Hi__kIMx__kIM''))) [0..<2]
   \<and> cut_at (cp ''Hi__kIMx__kIM'') (cp ''__kIM'') = cp ''Hi''
   \<and> \<not> sublist (cp ''NSNumber'') (cp ''Hi'')
   \<and> cut_at (cp ''Hi'') (cp ''NSNumber'') = cp ''Hi''"
proof -
  let ?s = "cp ''Hi__kIMx__kIM''" and ?c = "cp ''__kIM''"
  have s: "sublist ?c ?s" by code_simp
  have p: "prefix ?c (drop 2 ?s)" by code_simp
  have n': "list_all (\<lambda>j. \<not> prefix ?c (drop j ?s)) [0..<2]" by code_simp
  then have n: "\<forall>j<2. \<not> prefix ?c (drop j ?s)" by (simp add: list_all_iff)
  have ns: "\<not> sublist (cp ''NSNumber'') (cp ''Hi'')" by code_simp
  have t: "take 2 ?s = cp ''Hi''" by code_simp
  note mt = marker_truncation [of ?s]
  from mt have A: "\<forall>chunk c. \<not> sublist c chunk \<longrightarrow> cut_at chunk c = chunk"
    by (rule conjunct1 [OF conjunct2])
  from mt have B: "\<forall>chunk c. sublist c chunk \<longrightarrow>
         (\<exists>i. cut_at chunk c = take i chunk \<and> i \<le> length chunk
            \<and> prefix c (drop i chunk) \<and> (\<forall>j<i. \<not> prefix c (drop j chunk)))"
    by (rule conjunct1 [OF conjunct2 [OF conjunct2]])
  from B s obtain i where i: "cut_at ?s ?c = take i ?s" "prefix ?c (drop i ?s)"
      "\<forall>j<i. \<not> prefix ?c (drop j ?s)" by blast
  have "i = 2"
  proof (rule linorder_cases [of i 2])
    assume "i < 2"
    with n i(2) show ?thesis by blast
  next
    assume "2 < i"
    with i(3) p show ?thesis by blast
  qed
  with i(1) t have c1: "cut_at ?s ?c = cp ''Hi''" by simp
  from A ns have c2: "cut_at (cp ''Hi'') (cp ''NSNumber'') = cp ''Hi''" by blast
  from s p n' c1 ns c2 show ?thesis by (intro conjI)
qed

subsection \<open>The dispatch between the two methods\<close>

lemma utf8_decode_ignore_Nil: "utf8_decode_ignore [] = []"
  by (simp add: utf8_decode_ignore.simps utf8_next_def)

lemma decode_nonempty:
  "utf8_decode_ignore b \<noteq> [] \<Longrightarrow>
     decode_attributed_body U (Some b) = (case decode_body U b of Inl e \<Rightarrow> [] | Inr s \<Rightarrow> s)"
  by (auto simp: decode_attributed_body_def utf8_decode_ignore_Nil)

lemma method1_chunk_eval:
  assumes "str_slice T (str_find T (cp ''+'') + 1) (str_find T (cp ''+'') + 1000) = raw"
    and "skip_prefix raw = Inr c1"
    and "strip_artifact U (cut_markers cutoffs c1) = Inr c2"
  shows "method1_chunk U T = Inr (str_strip c2)"
  by (simp add: method1_chunk_def Let_def assms)

lemma decode_via_method1:
  assumes "sublist (cp ''+'') (utf8_decode_ignore b)"
    and "method1_chunk U (utf8_decode_ignore b) = Inr c" and "3 < length c"
  shows "decode_attributed_body U (Some b) = c"
proof -
  have ne: "utf8_decode_ignore b \<noteq> []" using assms(1) by (auto simp: cp_def)
  have "method1 U (utf8_decode_ignore b) = Inr (Some c)"
    using assms by (simp add: method1_def)
  then show ?thesis by (simp add: decode_nonempty [OF ne] decode_body_def Let_def)
qed

lemma decode_via_method2:
  "utf8_decode_ignore b \<noteq> [] \<Longrightarrow> method1 U (utf8_decode_ignore b) = Inr None \<Longrightarrow>
   method2 U (utf8_decode_ignore b) = Inr (Some r) \<Longrightarrow> decode_attributed_body U (Some b) = r"
  by (simp add: decode_nonempty decode_body_def Let_def)

subsection \<open>Method 1 on the example of the specification\<close>

text \<open>
  C6. For every blob whose text view is \<^verbatim>\<open>junk+\x81\x00\x00Hello world__kIMextra\<close>, the
  function returns \<^verbatim>\<open>Hello world\<close>, for every character table: the run after the
  separator starts with the character 0x81 and loses its three leading characters, and
  the chunk is cut at index 11, where the marker \<^verbatim>\<open>__kIM\<close> first occurs.
\<close>

theorem modern_example:
  assumes "utf8_decode_ignore b = cp ''junk+'' @ [129, 0, 0] @ cp ''Hello world__kIMextra''"
  shows "decode_attributed_body U (Some b) = cp ''Hello world''
    \<and> skip_prefix ([129, 0, 0] @ cp ''Hello world__kIMextra'') = Inr (cp ''Hello world__kIMextra'')
    \<and> cut_at (cp ''Hello world__kIMextra'') (cp ''__kIM'') = take 11 (cp ''Hello world__kIMextra'')
    \<and> cut_markers cutoffs (cp ''Hello world__kIMextra'') = cp ''Hello world''"
proof -
  let ?T = "cp ''junk+'' @ [129, 0, 0] @ cp ''Hello world__kIMextra''"
  have plus: "sublist (cp ''+'') ?T" by code_simp
  have raw: "str_slice ?T (str_find ?T (cp ''+'') + 1) (str_find ?T (cp ''+'') + 1000)
      = [129, 0, 0] @ cp ''Hello world__kIMextra''" by code_simp
  have skip: "skip_prefix ([129, 0, 0] @ cp ''Hello world__kIMextra'') = Inr (cp ''Hello world__kIMextra'')"
    by code_simp
  have cut1: "cut_at (cp ''Hello world__kIMextra'') (cp ''__kIM'') = take 11 (cp ''Hello world__kIMextra'')"
    by code_simp
  have cut: "cut_markers cutoffs (cp ''Hello world__kIMextra'') = cp ''Hello world''"
    by code_simp
  have art: "strip_artifact U (cut_markers cutoffs (cp ''Hello world__kIMextra'')) = Inr (cp ''Hello world'')"
    unfolding cut by (simp add: strip_artifact_def str_index_def islower_def cp_def)
  have strip: "str_strip (cp ''Hello world'') = cp ''Hello world''" by code_simp
  have len: "3 < length (cp ''Hello world'')" by (simp add: cp_def)
  have "method1_chunk U ?T = Inr (str_strip (cp ''Hello world''))"
    using raw skip art by (rule method1_chunk_eval)
  then have m: "method1_chunk U (utf8_decode_ignore b) = Inr (cp ''Hello world'')"
    by (simp only: assms strip)
  have s: "sublist (cp ''+'') (utf8_decode_ignore b)" by (simp only: assms plus)
  from s m len have "decode_attributed_body U (Some b) = cp ''Hello world''"
    by (rule decode_via_method1)
  with skip cut1 cut show ?thesis by (intro conjI)
qed

theorem modern_example_witness:
  "utf8_decode_ignore (ascii_bytes (cp ''junk+'') @ [194, 129, 0, 0] @ ascii_bytes (cp ''Hello world__kIMextra''))
     = cp ''junk+'' @ [129, 0, 0] @ cp ''Hello world__kIMextra''
   \<and> decode_attributed_body ascii_ucd
       (Some (ascii_bytes (cp ''junk+'') @ [194, 129, 0, 0] @ ascii_bytes (cp ''Hello world__kIMextra'')))
     = cp ''Hello world''"
proof -
  have h: "utf8_decode_ignore (ascii_bytes (cp ''junk+'') @ [194, 129, 0, 0] @ ascii_bytes (cp ''Hello world__kIMextra''))
     = cp ''junk+'' @ [129, 0, 0] @ cp ''Hello world__kIMextra''"
    by code_simp
  from h modern_example [OF h, of ascii_ucd, THEN conjunct1] show ?thesis by (rule conjI)
qed

subsection \<open>The threshold of method 1\<close>

text \<open>
  C7. When the text view contains the separator, let \<open>c2\<close> be the chunk of method 1
  after the prefix skip, the marker truncation and the artifact test. Method 1 returns
  the trimmed chunk \<open>str_strip c2\<close> if and only if it is longer than 3 characters, and
  that is then the result of the function; otherwise method 1 returns nothing, and the
  result of the function is the one of method 2 (the empty string when method 2 finds
  nothing).
\<close>

theorem modern_threshold:
  assumes "utf8_decode_ignore b = text"
    and "sublist (cp ''+'') text"
    and "skip_prefix (str_slice text (str_find text (cp ''+'') + 1)
           (str_find text (cp ''+'') + 1000)) = Inr c1"
    and "strip_artifact U (cut_markers cutoffs c1) = Inr c2"
  shows "method1 U text =
      (if 3 < length (str_strip c2) then Inr (Some (str_strip c2)) else Inr None)
    \<and> (3 < length (str_strip c2) \<longrightarrow> decode_attributed_body U (Some b) = str_strip c2)
    \<and> (length (str_strip c2) \<le> 3 \<longrightarrow>
         decode_attributed_body U (Some b) =
           (case method2 U text of Inl e \<Rightarrow> [] | Inr None \<Rightarrow> [] | Inr (Some r) \<Rightarrow> r))"
proof -
  let ?c = "str_strip c2"
  have ch: "method1_chunk U text = Inr ?c"
    using refl assms(3,4) by (rule method1_chunk_eval)
  have m1: "method1 U text = (if 3 < length ?c then Inr (Some ?c) else Inr None)"
    using assms(2) ch by (simp add: method1_def)
  have ne: "utf8_decode_ignore b \<noteq> []"
    using assms(1,2) by (auto simp: cp_def)
  have a: "decode_attributed_body U (Some b) = ?c" if "3 < length ?c"
    using assms(2) ch that unfolding assms(1) [symmetric] by (rule decode_via_method1)
  have "decode_attributed_body U (Some b) =
           (case method2 U text of Inl e \<Rightarrow> [] | Inr None \<Rightarrow> [] | Inr (Some r) \<Rightarrow> r)"
    if "length ?c \<le> 3"
    using that m1
    by (simp add: decode_nonempty [OF ne] decode_body_def Let_def assms(1)
          split: sum.split option.split)
  with m1 a show ?thesis by blast
qed

lemma url_match_not_h: "x \<noteq> 104 \<Longrightarrow> url_match (x # xs) = None"
  by (simp add: url_match_def cp_def)

theorem modern_threshold_witness:
  "utf8_decode_ignore (ascii_bytes short_chunk_text) = short_chunk_text
   \<and> sublist (cp ''+'') short_chunk_text
   \<and> skip_prefix (str_slice short_chunk_text (str_find short_chunk_text (cp ''+'') + 1)
        (str_find short_chunk_text (cp ''+'') + 1000))
       = Inr (cp ''Hi'' @ [2] @ cp ''streamtyped http://a.b'')
   \<and> strip_artifact ascii_ucd (cut_markers cutoffs (cp ''Hi'' @ [2] @ cp ''streamtyped http://a.b''))
       = Inr (cp ''Hi'')
   \<and> length (str_strip (cp ''Hi'')) \<le> 3
   \<and> method1 ascii_ucd short_chunk_text = Inr None
   \<and> method2 ascii_ucd short_chunk_text = Inr (Some (cp ''http://a.b''))
   \<and> decode_attributed_body ascii_ucd (Some (ascii_bytes short_chunk_text)) = cp ''http://a.b''"
proof -
  have T: "utf8_decode_ignore (ascii_bytes short_chunk_text) = short_chunk_text" by code_simp
  have h1: "sublist (cp ''+'') short_chunk_text" by code_simp
  have raw: "str_slice short_chunk_text (str_find short_chunk_text (cp ''+'') + 1)
      (str_find short_chunk_text (cp ''+'') + 1000) = cp ''aHi'' @ [2] @ cp ''streamtyped http://a.b''"
    by code_simp
  have skip: "skip_prefix (str_slice short_chunk_text (str_find short_chunk_text (cp ''+'') + 1)
        (str_find short_chunk_text (cp ''+'') + 1000))
      = Inr (cp ''Hi'' @ [2] @ cp ''streamtyped http://a.b'')"
    unfolding raw by code_simp
  have cut: "cut_markers cutoffs (cp ''Hi'' @ [2] @ cp ''streamtyped http://a.b'') = cp ''Hi''"
    by code_simp
  have art: "strip_artifact ascii_ucd (cut_markers cutoffs (cp ''Hi'' @ [2] @ cp ''streamtyped http://a.b''))
      = Inr (cp ''Hi'')"
    unfolding cut by (simp add: strip_artifact_def cp_def)
  have strip: "str_strip (cp ''Hi'') = cp ''Hi''" by code_simp
  have len: "length (str_strip (cp ''Hi'')) \<le> 3" unfolding strip by (simp add: cp_def)
  have st: "sublist (cp ''streamtyped'') short_chunk_text" by code_simp
  have sp: "split_sep (cp ''NSString'') short_chunk_text [] = [short_chunk_text]"
    by (simp add: short_chunk_text_def cp_def)
  have urls: "re_findall_url short_chunk_text = [cp ''http://a.b'']"
    by (simp add: short_chunk_text_def cp_def url_match_not_h)
       (simp add: url_match_def cp_def url_char_def isspace_def)
  have m2: "method2 ascii_ucd short_chunk_text = Inr (Some (cp ''http://a.b''))"
    using st by (simp add: method2_def str_split_def sp urls str_index_def) (simp add: cp_def)
  note mt = modern_threshold [OF T h1 skip art]
  from mt have m1: "method1 ascii_ucd short_chunk_text = Inr None" using len by simp
  from mt len have "decode_attributed_body ascii_ucd (Some (ascii_bytes short_chunk_text)) =
           (case method2 ascii_ucd short_chunk_text of
              Inl e \<Rightarrow> [] | Inr None \<Rightarrow> [] | Inr (Some r) \<Rightarrow> r)"
    by blast
  then have d: "decode_attributed_body ascii_ucd (Some (ascii_bytes short_chunk_text)) = cp ''http://a.b''"
    by (simp only: m2 sum.case option.case)
  from T h1 skip art len m1 m2 d show ?thesis by (intro conjI)
qed

subsection \<open>Method 2: the loop over the parts\<close>

text \<open>
  The loop returns at the first part whose cleaned form qualifies, with the first 500
  characters of that form.
\<close>

lemma scan_parts_Some:
  "scan_parts U parts = Some r \<Longrightarrow>
     \<exists>pre seg post. parts = pre @ seg # post \<and> (\<forall>p\<in>set pre. \<not> qualifies (clean_part U p))
       \<and> qualifies (clean_part U seg) \<and> r = take 500 (clean_part U seg)"
proof (induction parts)
  case Nil
  then show ?case by simp
next
  case (Cons part parts)
  show ?case
  proof (cases "qualifies (clean_part U part)")
    case True
    with Cons.prems have "r = take 500 (clean_part U part)" by (simp add: Let_def)
    with True have "part # parts = [] @ part # parts \<and> (\<forall>p\<in>set []. \<not> qualifies (clean_part U p))
       \<and> qualifies (clean_part U part) \<and> r = take 500 (clean_part U part)" by simp
    then show ?thesis by blast
  next
    case False
    with Cons.prems have "scan_parts U parts = Some r" by (simp add: Let_def)
    from Cons.IH[OF this] obtain pre seg post where
      h: "parts = pre @ seg # post" "\<forall>p\<in>set pre. \<not> qualifies (clean_part U p)"
         "qualifies (clean_part U seg)" "r = take 500 (clean_part U seg)" by blast
    from h False have "part # parts = (part # pre) @ seg # post
       \<and> (\<forall>p\<in>set (part # pre). \<not> qualifies (clean_part U p))
       \<and> qualifies (clean_part U seg) \<and> r = take 500 (clean_part U seg)" by simp
    then show ?thesis by blast
  qed
qed

lemma scan_parts_first:
  "(\<forall>p\<in>set pre. \<not> qualifies (clean_part U p)) \<Longrightarrow> qualifies (clean_part U seg) \<Longrightarrow>
     scan_parts U (pre @ seg # post) = Some (take 500 (clean_part U seg))"
  by (induction pre) (simp_all add: Let_def)

lemma method2_segment:
  "sublist (cp ''streamtyped'') text \<Longrightarrow>
   scan_parts U (drop 1 (split_sep (cp ''NSString'') text [])) = Some r \<Longrightarrow>
   method2 U text = Inr (Some r)"
  by (simp add: method2_def str_split_def cp_def)

subsection \<open>Blobs of ASCII text\<close>

text \<open>
  A blob of bytes below 128 decodes to the characters with the same codes. The lemmas
  after it evaluate the string operations on text in which the separator, the marker or
  the whitespace they look for does not occur, and run the model on \<open>long_text\<close>.
\<close>

lemma method1_no_separator: "\<not> sublist (cp ''+'') text \<Longrightarrow> method1 U text = Inr None"
  by (simp add: method1_def)

lemma utf8_decode_ignore_ascii:
  "list_all (\<lambda>c. c < 128) s \<Longrightarrow> utf8_decode_ignore (ascii_bytes s) = s"
proof (induction s)
  case Nil
  show ?case by (simp add: ascii_bytes_def utf8_decode_ignore_Nil)
next
  case (Cons c s)
  then have c: "c < 128" and s: "utf8_decode_ignore (ascii_bytes s) = s" by simp_all
  from c have u: "unat (of_nat c :: byte) = c" by (simp add: unat_of_nat)
  have "utf8_next (ascii_bytes (c # s)) = Decoded c 1"
    using c by (simp add: ascii_bytes_def utf8_next_def u)
  then have "utf8_decode_ignore (ascii_bytes (c # s)) = c # utf8_decode_ignore (drop 1 (ascii_bytes (c # s)))"
    by (simp add: utf8_decode_ignore.simps [of "ascii_bytes (c # s)"])
  also have "drop 1 (ascii_bytes (c # s)) = ascii_bytes s" by (simp add: ascii_bytes_def)
  finally show ?case by (simp add: s)
qed

lemma sublist_single: "sublist [x] s \<longleftrightarrow> x \<in> set s"
  by (induction s) (auto simp: sublist_Cons_right)

lemma split_sep_absent:
  "sep \<noteq> [] \<Longrightarrow> hd sep \<notin> set s \<Longrightarrow> split_sep sep s cur = [rev cur @ s]"
  by (induction s arbitrary: cur) (auto simp: prefix_Cons)

lemma str_replace_absent:
  "old \<noteq> [] \<Longrightarrow> hd old \<notin> set s \<Longrightarrow> str_replace s old new = s"
  by (induction s) (auto simp: prefix_Cons)

lemma split_ws_no_space:
  "\<forall>c\<in>set s. \<not> isspace c \<Longrightarrow>
     split_ws s cur = (if rev cur @ s = [] then [] else [rev cur @ s])"
  by (induction s arbitrary: cur) auto

lemma str_strip_id:
  "s \<noteq> [] \<Longrightarrow> \<not> isspace (hd s) \<Longrightarrow> \<not> isspace (last s) \<Longrightarrow> str_strip s = s"
proof -
  assume a: "s \<noteq> []" "\<not> isspace (hd s)" "\<not> isspace (last s)"
  then have "dropWhile isspace s = s" by (cases s) simp_all
  moreover from a have "dropWhile isspace (rev s) = rev s"
    by (cases "rev s") (simp_all add: hd_rev [symmetric])
  ultimately show ?thesis by (simp add: str_strip_def)
qed

lemma clean_part_letters:
  "0 < n \<Longrightarrow> clean_part U (replicate n 97) = replicate n 97"
proof -
  assume n: "0 < n"
  have f: "filter (isprintable U) (replicate n 97) = replicate n 97"
    by (simp add: isprintable_def)
  have r: "str_replace (replicate n 97) old new = replicate n 97"
    if "old \<noteq> []" "hd old \<noteq> 97" for old new
    using that by (simp add: str_replace_absent)
  have g: "foldl (\<lambda>r marker. str_replace r marker (cp '' '')) (replicate n 97) markers
      = replicate n 97"
    by (simp add: markers_def r cp_def)
  have w: "split_ws (replicate n 97) [] = [replicate n 97]"
    using n by (simp add: split_ws_no_space isspace_def)
  have s: "str_strip (replicate n 97) = replicate n 97"
    using n by (simp add: str_strip_id isspace_def last_replicate)
  show ?thesis by (simp add: clean_part_def Let_def f g w s)
qed

lemma long_text_view: "utf8_decode_ignore (ascii_bytes long_text) = long_text"
  by (rule utf8_decode_ignore_ascii) (simp add: long_text_def cp_def list_all_iff)

lemma long_text_method1: "method1 U long_text = Inr None"
  by (rule method1_no_separator) (simp add: sublist_single cp_def long_text_def)

lemma long_text_streamtyped: "sublist (cp ''streamtyped'') long_text"
  by (rule prefix_imp_sublist) (simp add: long_text_def cp_def)

lemma long_text_split:
  "drop 1 (split_sep (cp ''NSString'') long_text []) = [replicate 501 97]"
  by (simp add: long_text_def cp_def split_sep_absent)

lemma prefix_single: "prefix [x] s \<longleftrightarrow> s \<noteq> [] \<and> hd s = x"
  by (cases s) auto

lemma long_text_qualifies: "qualifies (clean_part U (replicate 501 97))"
  by (simp add: clean_part_letters qualifies_def cp_def prefix_single)

lemma long_text_scan:
  "scan_parts U (drop 1 (split_sep (cp ''NSString'') long_text [])) = Some (replicate 500 97)"
proof -
  have "scan_parts U [replicate 501 97] = Some (take 500 (clean_part U (replicate 501 97)))"
    using long_text_qualifies [of U] by (simp add: Let_def)
  also have "take 500 (clean_part U (replicate 501 97)) = replicate 500 97"
    by (simp add: clean_part_letters)
  finally show ?thesis unfolding long_text_split .
qed

lemma long_text_decode:
  "decode_attributed_body U (Some (ascii_bytes long_text)) = replicate 500 97"
proof -
  have ne: "utf8_decode_ignore (ascii_bytes long_text) \<noteq> []"
    unfolding long_text_view by (simp add: long_text_def)
  have m1: "method1 U (utf8_decode_ignore (ascii_bytes long_text)) = Inr None"
    unfolding long_text_view by (rule long_text_method1)
  have m2: "method2 U (utf8_decode_ignore (ascii_bytes long_text)) = Inr (Some (replicate 500 97))"
    unfolding long_text_view using long_text_streamtyped long_text_scan by (rule method2_segment)
  from ne m1 m2 show ?thesis by (rule decode_via_method2)
qed

subsection \<open>The bound on a legacy segment\<close>

text \<open>
  C10. When method 1 returns nothing, the text view contains \<^verbatim>\<open>streamtyped\<close> and the loop
  over the parts returns a string, the function returns that string, it has at most 500
  characters, and it is the first 500 characters of the cleaned form of a part that
  qualifies: a longer cleaned form is truncated.
\<close>

theorem legacy_segment_bounded:
  assumes "method1 U (utf8_decode_ignore b) = Inr None"
    and "sublist (cp ''streamtyped'') (utf8_decode_ignore b)"
    and "scan_parts U (drop 1 (split_sep (cp ''NSString'') (utf8_decode_ignore b) [])) = Some r"
  shows "decode_attributed_body U (Some b) = r \<and> length r \<le> 500
    \<and> (\<exists>seg \<in> set (drop 1 (split_sep (cp ''NSString'') (utf8_decode_ignore b) [])).
          qualifies (clean_part U seg) \<and> r = take 500 (clean_part U seg))"
proof -
  have ne: "utf8_decode_ignore b \<noteq> []" using assms(2) by (auto simp: cp_def)
  have "method2 U (utf8_decode_ignore b) = Inr (Some r)"
    using assms(2,3) by (rule method2_segment)
  with ne assms(1) have d: "decode_attributed_body U (Some b) = r"
    by (rule decode_via_method2)
  from scan_parts_Some[OF assms(3)] obtain pre seg post where
    h: "drop 1 (split_sep (cp ''NSString'') (utf8_decode_ignore b) []) = pre @ seg # post"
       "qualifies (clean_part U seg)" "r = take 500 (clean_part U seg)" by blast
  from h(1) have "seg \<in> set (drop 1 (split_sep (cp ''NSString'') (utf8_decode_ignore b) []))"
    by simp
  with h(2,3) d show ?thesis by auto
qed

text \<open>
  The blob \<open>long_text\<close>: the cleaned segment has 501 characters and the function returns
  500 of them.
\<close>

theorem legacy_segment_bounded_witness:
  "method1 ascii_ucd (utf8_decode_ignore (ascii_bytes long_text)) = Inr None
   \<and> sublist (cp ''streamtyped'') (utf8_decode_ignore (ascii_bytes long_text))
   \<and> scan_parts ascii_ucd
       (drop 1 (split_sep (cp ''NSString'') (utf8_decode_ignore (ascii_bytes long_text)) []))
       = Some (replicate 500 97)
   \<and> clean_part ascii_ucd (replicate 501 97) = replicate 501 97
   \<and> decode_attributed_body ascii_ucd (Some (ascii_bytes long_text)) = replicate 500 97
   \<and> length (replicate 500 (97::nat)) \<le> 500"
proof -
  have h1: "method1 ascii_ucd (utf8_decode_ignore (ascii_bytes long_text)) = Inr None"
    unfolding long_text_view by (rule long_text_method1)
  have h2: "sublist (cp ''streamtyped'') (utf8_decode_ignore (ascii_bytes long_text))"
    unfolding long_text_view by (rule long_text_streamtyped)
  have h3: "scan_parts ascii_ucd
       (drop 1 (split_sep (cp ''NSString'') (utf8_decode_ignore (ascii_bytes long_text)) []))
       = Some (replicate 500 97)"
    unfolding long_text_view by (rule long_text_scan)
  have c: "clean_part ascii_ucd (replicate 501 97) = replicate 501 97"
    by (simp add: clean_part_letters)
  note b = legacy_segment_bounded [OF h1 h2 h3]
  from b have d: "decode_attributed_body ascii_ucd (Some (ascii_bytes long_text)) = replicate 500 97"
    by (rule conjunct1)
  from b have l: "length (replicate 500 (97::nat)) \<le> 500"
    by (rule conjunct1 [OF conjunct2])
  from h1 h2 h3 c d l show ?thesis by (intro conjI)
qed

subsection \<open>The first qualifying legacy segment\<close>

text \<open>
  C4. When method 1 returns nothing and the text view contains \<^verbatim>\<open>streamtyped\<close>, the
  function returns the first 500 characters of the cleaned form of the first part after
  the header whose cleaned form is longer than 10 characters and does not begin with
  \<^verbatim>\<open>+\<close>: the parts before it do not qualify, and the parts after it are not looked at.
  The value is the cleaned segment itself only when that has at most 500 characters.
\<close>

theorem legacy_first_segment:
  assumes "method1 U (utf8_decode_ignore b) = Inr None"
    and "sublist (cp ''streamtyped'') (utf8_decode_ignore b)"
    and "drop 1 (split_sep (cp ''NSString'') (utf8_decode_ignore b) []) = pre @ seg # post"
    and "\<forall>p\<in>set pre. \<not> qualifies (clean_part U p)"
    and "qualifies (clean_part U seg)"
  shows "decode_attributed_body U (Some b) = take 500 (clean_part U seg)"
proof -
  have ne: "utf8_decode_ignore b \<noteq> []" using assms(2) by (auto simp: cp_def)
  have "scan_parts U (drop 1 (split_sep (cp ''NSString'') (utf8_decode_ignore b) []))
          = Some (take 500 (clean_part U seg))"
    unfolding assms(3) using assms(4,5) by (rule scan_parts_first)
  with assms(2) have "method2 U (utf8_decode_ignore b) = Inr (Some (take 500 (clean_part U seg)))"
    by (rule method2_segment)
  with ne assms(1) show ?thesis by (rule decode_via_method2)
qed

text \<open>The legacy example of the specification, with a short part before the message.\<close>

theorem legacy_first_segment_witness:
  "method1 ascii_ucd (utf8_decode_ignore (ascii_bytes legacy_text)) = Inr None
   \<and> sublist (cp ''streamtyped'') (utf8_decode_ignore (ascii_bytes legacy_text))
   \<and> drop 1 (split_sep (cp ''NSString'') (utf8_decode_ignore (ascii_bytes legacy_text)) [])
       = [cp ''ab''] @ cp ''ZZZSome message text hereNSDictionary'' # []
   \<and> list_all (\<lambda>p. \<not> qualifies (clean_part ascii_ucd p)) [cp ''ab'']
   \<and> qualifies (clean_part ascii_ucd (cp ''ZZZSome message text hereNSDictionary''))
   \<and> decode_attributed_body ascii_ucd (Some (ascii_bytes legacy_text))
       = cp ''ZZZSome message text here''"
proof -
  let ?T = "utf8_decode_ignore (ascii_bytes legacy_text)"
  have T: "?T = legacy_text"
    by (rule utf8_decode_ignore_ascii) (simp add: legacy_text_def cp_def)
  have h1: "method1 ascii_ucd ?T = Inr None"
    unfolding T by (rule method1_no_separator) (simp add: sublist_single cp_def legacy_text_def)
  have h2: "sublist (cp ''streamtyped'') ?T"
    unfolding T by (rule prefix_imp_sublist) (simp add: legacy_text_def cp_def)
  have h3: "drop 1 (split_sep (cp ''NSString'') ?T [])
       = [cp ''ab''] @ cp ''ZZZSome message text hereNSDictionary'' # []"
    unfolding T by (simp add: legacy_text_def cp_def)
  have c1: "clean_part ascii_ucd (cp ''ab'') = cp ''ab''"
    by (simp add: clean_part_def markers_def isprintable_def cp_def str_strip_def isspace_def)
  have c2: "clean_part ascii_ucd (cp ''ZZZSome message text hereNSDictionary'')
       = cp ''ZZZSome message text here''"
    by (simp add: clean_part_def markers_def isprintable_def cp_def str_strip_def isspace_def)
  have h4': "list_all (\<lambda>p. \<not> qualifies (clean_part ascii_ucd p)) [cp ''ab'']"
    by (simp add: c1 qualifies_def) (simp add: cp_def)
  then have h4: "\<forall>p\<in>set [cp ''ab'']. \<not> qualifies (clean_part ascii_ucd p)" by simp
  have h5: "qualifies (clean_part ascii_ucd (cp ''ZZZSome message text hereNSDictionary''))"
    unfolding c2 by (simp add: qualifies_def cp_def)
  have t: "take 500 (cp ''ZZZSome message text here'') = cp ''ZZZSome message text here''"
    by (simp add: cp_def)
  have d: "decode_attributed_body ascii_ucd (Some (ascii_bytes legacy_text))
       = cp ''ZZZSome message text here''"
    using legacy_first_segment [OF h1 h2 h3 h4 h5] by (simp only: c2 t)
  from h1 h2 h3 h4' h5 d show ?thesis by (intro conjI)
qed

text \<open>
  A cleaned segment of 501 characters qualifies and is not the value returned: the
  function returns its first 500 characters.
\<close>

theorem legacy_first_segment_counterexample:
  "sublist (cp ''streamtyped'') (utf8_decode_ignore (ascii_bytes long_text))
   \<and> drop 1 (split_sep (cp ''NSString'') (utf8_decode_ignore (ascii_bytes long_text)) [])
       = [replicate 501 97]
   \<and> clean_part ascii_ucd (replicate 501 97) = replicate 501 97
   \<and> qualifies (clean_part ascii_ucd (replicate 501 97))
   \<and> decode_attributed_body ascii_ucd (Some (ascii_bytes long_text)) = replicate 500 97
   \<and> decode_attributed_body ascii_ucd (Some (ascii_bytes long_text))
       \<noteq> clean_part ascii_ucd (replicate 501 97)"
proof -
  have h2: "sublist (cp ''streamtyped'') (utf8_decode_ignore (ascii_bytes long_text))"
    unfolding long_text_view by (rule long_text_streamtyped)
  have h3: "drop 1 (split_sep (cp ''NSString'') (utf8_decode_ignore (ascii_bytes long_text)) [])
       = [replicate 501 97]"
    unfolding long_text_view by (rule long_text_split)
  have c: "clean_part ascii_ucd (replicate 501 97) = replicate 501 97"
    by (simp add: clean_part_letters)
  have q: "qualifies (clean_part ascii_ucd (replicate 501 97))" by (rule long_text_qualifies)
  have d: "decode_attributed_body ascii_ucd (Some (ascii_bytes long_text)) = replicate 500 97"
    by (rule long_text_decode)
  have "length (replicate 500 (97::nat)) \<noteq> length (replicate 501 (97::nat))" by simp
  then have "replicate 500 (97::nat) \<noteq> replicate 501 97" by metis
  then have n: "decode_attributed_body ascii_ucd (Some (ascii_bytes long_text))
       \<noteq> clean_part ascii_ucd (replicate 501 97)"
    by (simp only: d c not_False_eq_True)
  from h2 h3 c q d n show ?thesis by (intro conjI)
qed

subsection \<open>The URL fallback\<close>

lemma url_match_Nil: "url_match [] = None"
  by (simp add: url_match_def cp_def)

lemma findall_first:
  "url_match (drop k s) = Some u \<Longrightarrow> \<forall>j<k. url_match (drop j s) = None \<Longrightarrow>
     \<exists>rest. re_findall_url s = u # rest"
proof (induction s arbitrary: k)
  case Nil
  then show ?case by (simp add: url_match_Nil)
next
  case (Cons x xs)
  show ?case
  proof (cases k)
    case 0
    with Cons.prems(1) show ?thesis by simp
  next
    case (Suc k')
    with Cons.prems(2) have none: "url_match (x # xs) = None" by force
    from Suc Cons.prems(1) have m: "url_match (drop k' xs) = Some u" by simp
    have "\<forall>j<k'. url_match (drop j xs) = None"
    proof (intro allI impI)
      fix j assume "j < k'"
      then have "Suc j < k" using Suc by simp
      with Cons.prems(2) have "url_match (drop (Suc j) (x # xs)) = None" by blast
      then show "url_match (drop j xs) = None" by simp
    qed
    from Cons.IH[OF m this] none show ?thesis by simp
  qed
qed

text \<open>
  C8. When method 1 returns nothing, the text view contains \<^verbatim>\<open>streamtyped\<close> and no part
  qualifies, the function returns the match of the URL pattern that starts at the
  lowest index of the text view at which there is one. Without the condition on
  method 1 the statement fails: method 1 runs first, and what it accepts is returned
  before any URL is looked for.
\<close>

theorem url_fallback:
  assumes "method1 U (utf8_decode_ignore b) = Inr None"
    and "sublist (cp ''streamtyped'') (utf8_decode_ignore b)"
    and "scan_parts U (drop 1 (split_sep (cp ''NSString'') (utf8_decode_ignore b) [])) = None"
    and "url_match (drop k (utf8_decode_ignore b)) = Some u"
    and "\<forall>j<k. url_match (drop j (utf8_decode_ignore b)) = None"
  shows "decode_attributed_body U (Some b) = u"
proof -
  have ne: "utf8_decode_ignore b \<noteq> []" using assms(2) by (auto simp: cp_def)
  from findall_first[OF assms(4,5)] obtain rest where
    "re_findall_url (utf8_decode_ignore b) = u # rest" by blast
  with assms(2,3) have "method2 U (utf8_decode_ignore b) = Inr (Some u)"
    by (simp add: method2_def str_split_def cp_def str_index_def)
  with ne assms(1) show ?thesis by (rule decode_via_method2)
qed

text \<open>The URL example of the specification.\<close>

theorem url_fallback_witness:
  "method1 ascii_ucd (utf8_decode_ignore (ascii_bytes url_text)) = Inr None
   \<and> sublist (cp ''streamtyped'') (utf8_decode_ignore (ascii_bytes url_text))
   \<and> scan_parts ascii_ucd
       (drop 1 (split_sep (cp ''NSString'') (utf8_decode_ignore (ascii_bytes url_text)) [])) = None
   \<and> url_match (drop 13 (utf8_decode_ignore (ascii_bytes url_text)))
       = Some (cp ''https://example.com/x?y=1'')
   \<and> list_all (\<lambda>j. url_match (drop j (utf8_decode_ignore (ascii_bytes url_text))) = None) [0..<13]
   \<and> decode_attributed_body ascii_ucd (Some (ascii_bytes url_text)) = cp ''https://example.com/x?y=1''"
proof -
  let ?T = "utf8_decode_ignore (ascii_bytes url_text)"
  have T: "?T = url_text"
    by (rule utf8_decode_ignore_ascii) (simp add: url_text_def cp_def)
  have h1: "method1 ascii_ucd ?T = Inr None"
    unfolding T by (rule method1_no_separator) (simp add: sublist_single cp_def url_text_def)
  have h2: "sublist (cp ''streamtyped'') ?T"
    unfolding T by (rule prefix_imp_sublist) (simp add: url_text_def cp_def)
  have sp: "drop 1 (split_sep (cp ''NSString'') url_text []) = []"
    by (simp add: url_text_def cp_def)
  have h3: "scan_parts ascii_ucd (drop 1 (split_sep (cp ''NSString'') ?T [])) = None"
    unfolding T sp by simp
  have h4: "url_match (drop 13 ?T) = Some (cp ''https://example.com/x?y=1'')"
    unfolding T by (simp add: url_text_def cp_def url_match_def url_char_def isspace_def)
  have u: "[0..<13] = [0, 1, 2, 3, 4, 5, 6, 7, 8, 9, 10, 11, 12::nat]" by code_simp
  have h5': "list_all (\<lambda>j. url_match (drop j ?T) = None) [0..<13]"
    unfolding T u by (simp add: url_text_def cp_def url_match_not_h)
  have h5: "\<forall>j<13. url_match (drop j ?T) = None"
    using h5' unfolding list_all_iff by auto
  have d: "decode_attributed_body ascii_ucd (Some (ascii_bytes url_text))
       = cp ''https://example.com/x?y=1''"
    using h1 h2 h3 h4 h5 by (rule url_fallback)
  from h1 h2 h3 h4 h5' d show ?thesis by (intro conjI)
qed

text \<open>
  A text view with \<^verbatim>\<open>streamtyped\<close>, no qualifying part and a URL, on which method 1
  accepts the chunk \<^verbatim>\<open>Hello\<close>: the function returns the chunk, not the URL.
\<close>

theorem url_fallback_counterexample:
  "sublist (cp ''streamtyped'') (utf8_decode_ignore (ascii_bytes modern_url_text))
   \<and> scan_parts ascii_ucd
       (drop 1 (split_sep (cp ''NSString'') (utf8_decode_ignore (ascii_bytes modern_url_text)) []))
       = None
   \<and> re_findall_url (utf8_decode_ignore (ascii_bytes modern_url_text)) = [cp ''http://a.b'']
   \<and> decode_attributed_body ascii_ucd (Some (ascii_bytes modern_url_text)) = cp ''Hello''
   \<and> decode_attributed_body ascii_ucd (Some (ascii_bytes modern_url_text)) \<noteq> cp ''http://a.b''"
proof -
  let ?T = "utf8_decode_ignore (ascii_bytes modern_url_text)"
  have T: "?T = modern_url_text"
    by (rule utf8_decode_ignore_ascii) (simp add: modern_url_text_def cp_def)
  have h2: "sublist (cp ''streamtyped'') ?T" unfolding T by code_simp
  have sp: "drop 1 (split_sep (cp ''NSString'') modern_url_text []) = []"
    by (simp add: modern_url_text_def cp_def)
  have h3: "scan_parts ascii_ucd (drop 1 (split_sep (cp ''NSString'') ?T [])) = None"
    unfolding T sp by simp
  have urls: "re_findall_url ?T = [cp ''http://a.b'']"
    unfolding T
    by (simp add: modern_url_text_def cp_def url_match_not_h)
       (simp add: url_match_def cp_def url_char_def isspace_def)
  have plus: "sublist (cp ''+'') ?T" unfolding T by code_simp
  have raw: "str_slice modern_url_text (str_find modern_url_text (cp ''+'') + 1)
      (str_find modern_url_text (cp ''+'') + 1000) = cp ''xHello''" by code_simp
  have skip: "skip_prefix (cp ''xHello'') = Inr (cp ''Hello'')" by code_simp
  have cut: "cut_markers cutoffs (cp ''Hello'') = cp ''Hello''" by code_simp
  have art: "strip_artifact ascii_ucd (cut_markers cutoffs (cp ''Hello'')) = Inr (cp ''Hello'')"
    unfolding cut by (simp add: strip_artifact_def str_index_def islower_def cp_def)
  have strip: "str_strip (cp ''Hello'') = cp ''Hello''" by code_simp
  have "method1_chunk ascii_ucd modern_url_text = Inr (str_strip (cp ''Hello''))"
    using raw skip art by (rule method1_chunk_eval)
  then have m: "method1_chunk ascii_ucd ?T = Inr (cp ''Hello'')" by (simp only: T strip)
  have len: "3 < length (cp ''Hello'')" by (simp add: cp_def)
  from plus m len have d: "decode_attributed_body ascii_ucd (Some (ascii_bytes modern_url_text)) = cp ''Hello''"
    by (rule decode_via_method1)
  have "cp ''Hello'' \<noteq> cp ''http://a.b''" by (simp add: cp_def)
  then have n: "decode_attributed_body ascii_ucd (Some (ascii_bytes modern_url_text)) \<noteq> cp ''http://a.b''"
    by (simp only: d not_False_eq_True)
  from h2 h3 urls d n show ?thesis by (intro conjI)
qed

subsection \<open>What the ignore handler does to a blob\<close>

text \<open>
  A step that decodes a character reads only the bytes it takes, so it decodes the same
  character whatever follows them.
\<close>

lemma utf8_seq2_Decoded:
  "utf8_seq2 ch rest = Decoded c n \<Longrightarrow>
     n = 2 \<and> 1 \<le> length rest \<and> utf8_seq2 ch (take 1 rest @ X) = Decoded c n"
  by (auto simp: utf8_seq2_def split: list.splits if_splits)

lemma utf8_seq3_Decoded:
  "utf8_seq3 ch rest = Decoded c n \<Longrightarrow>
     n = 3 \<and> 2 \<le> length rest \<and> utf8_seq3 ch (take 2 rest @ X) = Decoded c n"
  by (auto simp: utf8_seq3_def split: list.splits if_splits)

lemma utf8_seq4_Decoded:
  "utf8_seq4 ch rest = Decoded c n \<Longrightarrow>
     n = 4 \<and> 3 \<le> length rest \<and> utf8_seq4 ch (take 3 rest @ X) = Decoded c n"
  by (auto simp: utf8_seq4_def split: list.splits if_splits)

lemma utf8_next_Decoded_take:
  assumes "utf8_next bs = Decoded c n"
  shows "n \<le> length bs \<and> utf8_next (take n bs @ X) = Decoded c n"
proof (cases bs)
  case Nil
  with assms show ?thesis by (simp add: utf8_next_def)
next
  case (Cons b0 rest)
  consider "unat b0 < 128" | "128 \<le> unat b0" "unat b0 < 194"
    | "194 \<le> unat b0" "unat b0 < 224" | "224 \<le> unat b0" "unat b0 < 240"
    | "240 \<le> unat b0" "unat b0 < 245" | "245 \<le> unat b0" by linarith
  then show ?thesis
  proof cases
    case 1
    with assms Cons show ?thesis by (auto simp: utf8_next_def)
  next
    case 2
    with assms Cons show ?thesis by (simp add: utf8_next_def)
  next
    case 3
    with assms Cons have s: "utf8_seq2 (unat b0) rest = Decoded c n" by (simp add: utf8_next_def)
    from utf8_seq2_Decoded [OF s, of X] 3 Cons show ?thesis by (simp add: utf8_next_def)
  next
    case 4
    with assms Cons have s: "utf8_seq3 (unat b0) rest = Decoded c n" by (simp add: utf8_next_def)
    from utf8_seq3_Decoded [OF s, of X] 4 Cons show ?thesis by (simp add: utf8_next_def)
  next
    case 5
    with assms Cons have s: "utf8_seq4 (unat b0) rest = Decoded c n" by (simp add: utf8_next_def)
    from utf8_seq4_Decoded [OF s, of X] 5 Cons show ?thesis by (simp add: utf8_next_def)
  next
    case 6
    with assms Cons show ?thesis by (simp add: utf8_next_def)
  qed
qed

lemma utf8_next_Finished: "utf8_next bs = Finished \<Longrightarrow> bs = []"
  using utf8_next_advances [of bs] by (cases bs) (auto simp: advances_def)

lemma kept_bytes_subseq: "subseq (kept_bytes bs) bs"
proof (induction bs rule: kept_bytes.induct)
  case (1 bs)
  show ?case
  proof (cases "utf8_next bs")
    case (Decoded c n)
    from 1(1) [OF Decoded] have "subseq (take n bs @ kept_bytes (drop n bs)) (take n bs @ drop n bs)"
      by (intro list_emb_append_mono) simp_all
    with Decoded show ?thesis by (simp add: kept_bytes.simps [of bs])
  next
    case (Dropped n)
    from 1(2) [OF Dropped] have "subseq (kept_bytes (drop n bs)) (take n bs @ drop n bs)"
      by (rule list_emb_append2)
    with Dropped show ?thesis by (simp add: kept_bytes.simps [of bs])
  next
    case Finished
    then show ?thesis by (simp add: kept_bytes.simps [of bs])
  qed
qed

lemma kept_bytes_strict: "utf8_decode_strict (kept_bytes bs) = Some (utf8_decode_ignore bs)"
proof (induction bs rule: kept_bytes.induct)
  case (1 bs)
  show ?case
  proof (cases "utf8_next bs")
    case (Decoded c n)
    let ?K = "kept_bytes (drop n bs)"
    from utf8_next_Decoded_take [OF Decoded, of ?K]
    have n: "n \<le> length bs" and nx: "utf8_next (take n bs @ ?K) = Decoded c n" by simp_all
    from n have d: "drop n (take n bs @ ?K) = ?K" by simp
    have "utf8_decode_strict (take n bs @ ?K) = map_option ((#) c) (utf8_decode_strict ?K)"
      by (simp add: utf8_decode_strict.simps [of "take n bs @ ?K"] nx d del: drop_append)
    also have "\<dots> = Some (c # utf8_decode_ignore (drop n bs))"
      by (simp add: 1(1) [OF Decoded])
    finally show ?thesis
      using Decoded by (simp add: kept_bytes.simps [of bs] utf8_decode_ignore.simps [of bs])
  next
    case (Dropped n)
    with 1(2) [OF Dropped] show ?thesis
      by (simp add: kept_bytes.simps [of bs] utf8_decode_ignore.simps [of bs])
  next
    case Finished
    then have "bs = []" by (rule utf8_next_Finished)
    then show ?thesis
      by (simp add: kept_bytes.simps [of "[]"] utf8_decode_ignore.simps [of "[]"]
            utf8_decode_strict.simps [of "[]"] utf8_next_def)
  qed
qed

lemma kept_bytes_length: "length (kept_bytes bs) \<le> length bs"
  using kept_bytes_subseq [of bs] by (rule list_emb_length)

lemma strict_Some_kept: "utf8_decode_strict bs = Some s \<Longrightarrow> kept_bytes bs = bs"
proof (induction bs arbitrary: s rule: kept_bytes.induct)
  case (1 bs)
  show ?case
  proof (cases "utf8_next bs")
    case (Decoded c n)
    with 1(3) obtain s' where "utf8_decode_strict (drop n bs) = Some s'"
      by (auto simp: utf8_decode_strict.simps [of bs])
    from 1(1) [OF Decoded this] Decoded show ?thesis
      by (simp add: kept_bytes.simps [of bs])
  next
    case (Dropped n)
    with 1(3) show ?thesis by (simp add: utf8_decode_strict.simps [of bs])
  next
    case Finished
    then have "kept_bytes bs = []" by (simp add: kept_bytes.simps [of bs])
    with Finished show ?thesis using utf8_next_Finished [of bs] by simp
  qed
qed

lemma strict_None_kept: "utf8_decode_strict bs = None \<Longrightarrow> length (kept_bytes bs) < length bs"
proof (induction bs rule: kept_bytes.induct)
  case (1 bs)
  show ?case
  proof (cases "utf8_next bs")
    case (Decoded c n)
    with 1(3) have "utf8_decode_strict (drop n bs) = None"
      by (simp add: utf8_decode_strict.simps [of bs])
    from 1(1) [OF Decoded this] have "length (kept_bytes (drop n bs)) < length bs - n" by simp
    with Decoded show ?thesis by (simp add: kept_bytes.simps [of bs])
  next
    case (Dropped n)
    have "length (kept_bytes (drop n bs)) \<le> length (drop n bs)" by (rule kept_bytes_length)
    also have "\<dots> < length bs" using Dropped by (rule utf8_next_Dropped)
    finally show ?thesis using Dropped by (simp add: kept_bytes.simps [of bs])
  next
    case Finished
    with 1(3) show ?thesis by (simp add: utf8_decode_strict.simps [of bs])
  qed
qed

text \<open>
  C5. The text view is made from the blob by deleting its invalid byte sequences, and by
  nothing else: the bytes that the decoder keeps are a subsequence of the blob, they are
  valid UTF-8, and their strict decoding is the text view. Bytes are deleted exactly when
  the blob is not valid UTF-8, and no character is put in their place, so the text view
  has at most as many characters as the blob has bytes.
\<close>

theorem lossy_view_deletes:
  "subseq (kept_bytes b) b
   \<and> utf8_decode_strict (kept_bytes b) = Some (utf8_decode_ignore b)
   \<and> (utf8_decode_strict b = None \<longleftrightarrow> length (kept_bytes b) < length b)
   \<and> length (utf8_decode_ignore b) \<le> length b"
proof (intro conjI)
  show "subseq (kept_bytes b) b" by (rule kept_bytes_subseq)
  show "utf8_decode_strict (kept_bytes b) = Some (utf8_decode_ignore b)" by (rule kept_bytes_strict)
  show "utf8_decode_strict b = None \<longleftrightarrow> length (kept_bytes b) < length b"
  proof
    assume "utf8_decode_strict b = None"
    then show "length (kept_bytes b) < length b" by (rule strict_None_kept)
  next
    assume l: "length (kept_bytes b) < length b"
    show "utf8_decode_strict b = None"
    proof (cases "utf8_decode_strict b")
      case None
      then show ?thesis .
    next
      case (Some s)
      then have "kept_bytes b = b" by (rule strict_Some_kept)
      with l show ?thesis by simp
    qed
  qed
  show "length (utf8_decode_ignore b) \<le> length b"
  proof (induction b rule: utf8_decode_ignore.induct)
    case (1 bs)
    show ?case
    proof (cases "utf8_next bs")
      case (Decoded c n)
      from utf8_next_Decoded [OF Decoded] 1(1) [OF Decoded] Decoded show ?thesis
        by (simp add: utf8_decode_ignore.simps [of bs])
    next
      case (Dropped n)
      from utf8_next_Dropped [OF Dropped] 1(2) [OF Dropped] Dropped show ?thesis
        by (simp add: utf8_decode_ignore.simps [of bs])
    next
      case Finished
      then show ?thesis by (simp add: utf8_decode_ignore.simps [of bs])
    qed
  qed
qed

text \<open>
  The blob \<^verbatim>\<open>A\xffB\<close> is not valid UTF-8, its second byte is dropped, and the text view
  is \<^verbatim>\<open>AB\<close>: two characters, none of them U+FFFD.
\<close>

theorem lossy_view_counterexample:
  "utf8_decode_strict [65, 255, 66] = None
   \<and> utf8_next [255, 66] = Dropped 1
   \<and> utf8_decode_ignore [65, 255, 66] = [65, 66]
   \<and> kept_bytes [65, 255, 66] = [65, 66]
   \<and> 65533 \<notin> set (utf8_decode_ignore [65, 255, 66])
   \<and> length (utf8_decode_ignore [65, 255, 66]) = 2"
proof -
  have a: "utf8_decode_strict [65, 255, 66] = None" by code_simp
  have b: "utf8_next [255, 66] = Dropped 1" by code_simp
  have c: "utf8_decode_ignore [65, 255, 66] = [65, 66]" by code_simp
  have d: "kept_bytes [65, 255, 66] = [65, 66]" by code_simp
  have e: "65533 \<notin> set (utf8_decode_ignore [65, 255, 66])" unfolding c by simp
  have f: "length (utf8_decode_ignore [65, 255, 66]) = 2" unfolding c by simp
  from a b c d e f show ?thesis by (intro conjI)
qed

end
